theory Spec2Isabelle
  imports Complex_Main
begin

section \<open>Revolutional Secure Angou: the recovery script and its key generator\<close>

text \<open>
  The notebook holds two programs. The markdown cell quotes \<^verbatim>\<open>generator.rb\<close>, which
  builds the weak key; the code cell is the Sage script that recovers the plaintext:
  \<^verbatim>\<open>
  r = None; n = pubkey.n; e = pubkey.e; k = 2
  while not r:
      eq = n * e - p * (k * p + 1)
      r = eq.roots(p, ring=ZZ)
      k += 2
  p = r[0][0]
  q = n / p
  d = inverse_mod(e, (p-1) * (q-1))
  plaintext = power_mod(ciphertext, d, n)
  print long_to_bytes(plaintext)[-48:]
  \<close>
  All integers are unbounded (Python longs and Sage integers), hence \<open>int\<close>. The quotient
  \<open>n / p\<close> of a Python long by a Sage integer is a Sage rational, hence \<open>rat\<close>.
\<close>

subsection \<open>Errors\<close>

datatype error = ZeroDivisionError | TypeError | ArithmeticError | IndexError

subsection \<open>The key generator\<close>

text \<open>
  \<^verbatim>\<open>
  p = OpenSSL::BN.generate_prime(1024, false)
  q = OpenSSL::BN.new(e).mod_inverse(p)
  next unless q.prime?
  key.set_key(p.to_i * q.to_i, e, nil)
  \<close>
  Primality is tested by trial division, so that it can be evaluated.
\<close>

definition is_prime :: "int \<Rightarrow> bool" where
  "is_prime p \<longleftrightarrow> 1 < p \<and> (\<forall>d \<in> {2..<p}. \<not> d dvd p)"

text \<open>\<open>mod_inverse\<close>: the inverse of \<open>e\<close> modulo \<open>p\<close> in the range \<open>0..<p\<close>, if there is one.\<close>

definition mod_inverse :: "int \<Rightarrow> int \<Rightarrow> int option" where
  "mod_inverse e p = List.find (\<lambda>x. (e * x) mod p = 1 mod p) [0..p - 1]"

text \<open>
  One round of the generator's loop for a given candidate \<open>p\<close>: the public key \<open>(n, e)\<close> it
  writes when \<open>q\<close> is prime, \<open>None\<close> when no key is written (the candidate is skipped, or
  \<open>e\<close> has no inverse modulo \<open>p\<close>). \<open>generate_prime\<close> only returns primes, so a candidate that
  is not prime gives no key either.
\<close>

definition generate :: "int \<Rightarrow> int \<Rightarrow> (int \<times> int) option" where
  "generate e p =
     (if \<not> is_prime p then None
      else (case mod_inverse e p of
              None \<Rightarrow> None
            | Some q \<Rightarrow> if is_prime q then Some (p * q, e) else None))"

subsection \<open>Library functions the script calls\<close>

text \<open>
  \<open>eq.roots(p, ring=ZZ)\<close> for \<open>eq = n*e - p*(k*p + 1)\<close>: the integer roots of the
  polynomial, of either sign, each paired with its multiplicity. A root \<open>x\<close> satisfies
  \<open>\<bar>x\<bar> \<le> \<bar>n*e\<bar> + 1\<close>, so the roots are found by testing that range (\<open>roots_ZZ_iff\<close>
  below); the discriminant \<open>1 + 4*k*n*e\<close> is odd, so no root is double. The script calls
  it with \<open>k \<ge> 2\<close> only, where there is at most one root (\<open>roots_ZZ_cases\<close>) and the order
  of the list does not matter.
\<close>

definition roots_ZZ :: "int \<Rightarrow> int \<Rightarrow> int \<Rightarrow> (int \<times> nat) list" where
  "roots_ZZ n e k =
     map (\<lambda>x. (x, 1)) (filter (\<lambda>x. n * e - x * (k * x + 1) = 0) [- (\<bar>n * e\<bar> + 1)..\<bar>n * e\<bar> + 1])"

text \<open>
  \<open>n / p\<close> with a Sage integer on the right: exact rational division, which raises
  only for a zero divisor.
\<close>

definition rat_div :: "int \<Rightarrow> int \<Rightarrow> error + rat" where
  "rat_div n p = (if p = 0 then Inl ZeroDivisionError else Inr (of_int n / of_int p))"

text \<open>
  \<open>inverse_mod(a, m)\<close>: the modulus, here the rational \<open>(p-1) * (q-1)\<close>, is converted to
  an integer first, and a rational that is not an integer raises \<open>TypeError\<close>. For a
  non-zero modulus the result lies in \<open>0..<\<bar>m\<bar>\<close>; modulo 0 only \<open>1\<close> and \<open>-1\<close> have an inverse,
  which is the number itself. \<open>ZeroDivisionError\<close> is raised when there is no inverse.
\<close>

definition inverse_mod :: "int \<Rightarrow> rat \<Rightarrow> error + int" where
  "inverse_mod a m =
     (case quotient_of m of (mi, den) \<Rightarrow>
        if den \<noteq> 1 then Inl TypeError
        else if mi = 0 then (if a = 1 \<or> a = - 1 then Inr a else Inl ZeroDivisionError)
        else (case List.find (\<lambda>x. (a * x) mod \<bar>mi\<bar> = 1 mod \<bar>mi\<bar>) [0..\<bar>mi\<bar> - 1] of
                None \<Rightarrow> Inl ZeroDivisionError
              | Some x \<Rightarrow> Inr x))"

text \<open>
  \<open>power_mod(a, n, m)\<close>:
  \<^verbatim>\<open>
  if m == 0: raise ZeroDivisionError
  if m == 1: return 0
  if n < 0: return power_mod(inverse_mod(a, m), -n, m)
  if n == 0:
      if a == 0: raise ArithmeticError
      return 1
  ... square and multiply, reducing with % m ...
  \<close>
\<close>

definition power_mod :: "int \<Rightarrow> int \<Rightarrow> int \<Rightarrow> error + int" where
  "power_mod a n m =
     (if m = 0 then Inl ZeroDivisionError
      else if m = 1 then Inr 0
      else if n < 0 then
        (case inverse_mod a (of_int m) of
           Inl err \<Rightarrow> Inl err
         | Inr ainv \<Rightarrow> Inr (ainv ^ nat (- n) mod m))
      else if n = 0 then (if a = 0 then Inl ArithmeticError else Inr 1)
      else Inr (a ^ nat n mod m))"

text \<open>
  \<open>long_to_bytes(n)\<close>: the big-endian bytes of \<open>n\<close> without leading zero bytes; a
  single zero byte when \<open>n\<close> is not positive.
\<close>

function be_bytes :: "int \<Rightarrow> string" where
  "be_bytes n = (if n \<le> 0 then [] else be_bytes (n div 256) @ [char_of (n mod 256)])"
  by pat_completeness auto
termination
  by (relation "measure nat") auto

definition long_to_bytes :: "int \<Rightarrow> string" where
  "long_to_bytes n = (if n \<le> 0 then [char_of (0::int)] else be_bytes n)"

text \<open>The slice \<open>s[i:]\<close>: a negative \<open>i\<close> counts from the end and is clipped at the start.\<close>

definition slice_from :: "int \<Rightarrow> 'a list \<Rightarrow> 'a list" where
  "slice_from i s =
     (let len = int (length s);
          j = (if i < 0 then max 0 (len + i) else min i len)
      in drop (nat j) s)"

subsection \<open>The search loop\<close>

text \<open>
  \<open>r\<close> starts as \<open>None\<close>, so the body runs at least once; it computes the roots for the
  current \<open>k\<close> and then adds 2 to \<open>k\<close>, also in the round that finds a root. The loop has no
  other exit than a non-empty root list, so it need not terminate: \<open>None\<close> is the run that
  never leaves the loop. The result is the root list and the value of \<open>k\<close> after the loop.
  The last argument records the values of \<open>k\<close> for which roots were computed, oldest first;
  the script does not read it.
\<close>

partial_function (option) search :: "int \<Rightarrow> int \<Rightarrow> int \<Rightarrow> int list \<Rightarrow> ((int \<times> nat) list \<times> int \<times> int list) option" where
  "search n e k tested =
     (let r = roots_ZZ n e k;
          tested' = tested @ [k];
          k' = k + 2
      in if r = [] then search n e k' tested' else Some (r, k', tested'))"

declare search.simps [code]

subsection \<open>The script\<close>

record vars =
  v_k :: int
  v_p :: int
  v_q :: rat
  v_d :: int
  v_plaintext :: int
  v_output :: string

text \<open>
  \<open>print long_to_bytes(plaintext)[-48:]\<close>: \<open>flag_slice\<close> is the value of the sliced expression,
  \<open>printed\<close> the bytes written to the output, where \<open>print\<close> appends a newline.
\<close>

definition flag_slice :: "int \<Rightarrow> string" where
  "flag_slice plaintext = slice_from (- 48) (long_to_bytes plaintext)"

definition printed :: "int \<Rightarrow> string" where
  "printed plaintext = flag_slice plaintext @ [CHR 0x0A]"

text \<open>
  Everything after the loop, from the root list \<open>r\<close> and the final \<open>k\<close>; the first error
  raised ends the run.
\<close>

definition finish :: "int \<Rightarrow> int \<Rightarrow> int \<Rightarrow> (int \<times> nat) list \<Rightarrow> int \<Rightarrow> error + vars" where
  "finish n e ciphertext r k =
     (case r of
        [] \<Rightarrow> Inl IndexError
      | (p, _) # _ \<Rightarrow>
          (case rat_div n p of
             Inl err \<Rightarrow> Inl err
           | Inr q \<Rightarrow>
               (case inverse_mod e ((of_int p - 1) * (q - 1)) of
                  Inl err \<Rightarrow> Inl err
                | Inr d \<Rightarrow>
                    (case power_mod ciphertext d n of
                       Inl err \<Rightarrow> Inl err
                     | Inr plaintext \<Rightarrow>
                         Inr \<lparr>v_k = k, v_p = p, v_q = q, v_d = d, v_plaintext = plaintext,
                              v_output = printed plaintext\<rparr>))))"

text \<open>
  The whole script on the modulus, the exponent and the ciphertext: \<open>None\<close> when the loop
  never ends, otherwise the error raised or the final values of the variables.
\<close>

definition recover :: "int \<Rightarrow> int \<Rightarrow> int \<Rightarrow> (error + vars) option" where
  "recover n e ciphertext =
     (case search n e 2 [] of
        None \<Rightarrow> None
      | Some (r, k, tested) \<Rightarrow> Some (finish n e ciphertext r k))"

subsection \<open>The script over any root finder\<close>

text \<open>
  The library fixes which roots \<open>eq.roots\<close> returns, not the order of the list. A run
  of the script in which each call may return the roots in any order: \<open>is_roots\<close> is what
  every answer of the call satisfies, \<open>loop_run\<close> the loop from a given \<open>k\<close> to its final
  root list and \<open>k\<close>, \<open>script_run\<close> the whole script.
\<close>

definition is_roots :: "int \<Rightarrow> int \<Rightarrow> int \<Rightarrow> (int \<times> nat) list \<Rightarrow> bool" where
  "is_roots n e k r \<longleftrightarrow>
     distinct (map fst r) \<and> set r = {(x, m). n * e - x * (k * x + 1) = 0 \<and> m = 1}"

inductive loop_run :: "int \<Rightarrow> int \<Rightarrow> int \<Rightarrow> (int \<times> nat) list \<times> int \<Rightarrow> bool" where
  loop_exit: "is_roots n e k r \<Longrightarrow> r \<noteq> [] \<Longrightarrow> loop_run n e k (r, k + 2)"
| loop_again: "is_roots n e k [] \<Longrightarrow> loop_run n e (k + 2) res \<Longrightarrow> loop_run n e k res"

inductive script_run :: "int \<Rightarrow> int \<Rightarrow> int \<Rightarrow> error + vars \<Rightarrow> bool" where
  script: "loop_run n e 2 (r, k) \<Longrightarrow> script_run n e ciphertext (finish n e ciphertext r k)"

section \<open>Properties\<close>

subsection \<open>Integer roots of the quadratic\<close>

lemma root_bound:
  assumes "n * e = x * (k * x + 1)"
  shows "\<bar>x\<bar> \<le> \<bar>n * e\<bar> + (1::int)"
proof (cases "n * e = 0")
  case True
  with assms have "x = 0 \<or> k * x = - 1" by (auto simp: add_eq_0_iff)
  then show ?thesis
  proof
    assume "x = 0" then show ?thesis by simp
  next
    assume "k * x = - 1"
    then have "\<bar>k\<bar> * \<bar>x\<bar> = 1" by (simp flip: abs_mult)
    then have "\<bar>x\<bar> = 1" by (auto simp: zmult_eq_1_iff)
    then show ?thesis by simp
  qed
next
  case False
  from assms have "x dvd n * e" by simp
  with False have "\<bar>x\<bar> \<le> \<bar>n * e\<bar>" by (rule dvd_imp_le_int)
  then show ?thesis by simp
qed

lemma roots_ZZ_iff: "(x, m) \<in> set (roots_ZZ n e k) \<longleftrightarrow> n * e = x * (k * x + 1) \<and> m = 1"
proof -
  have "n * e = x * (k * x + 1) \<Longrightarrow> - (\<bar>n * e\<bar> + 1) \<le> x \<and> x \<le> \<bar>n * e\<bar> + 1"
    using root_bound [of n e x k] by linarith
  then show ?thesis by (auto simp: roots_ZZ_def)
qed

lemma root_unique:
  assumes "2 \<le> k" "n * e = x * (k * x + 1)" "n * e = y * (k * y + 1)"
  shows "x = (y::int)"
proof (rule ccontr)
  assume "x \<noteq> y"
  from assms(2,3) have "(x - y) * (k * (x + y) + 1) = 0" by (simp add: algebra_simps)
  with \<open>x \<noteq> y\<close> have "k * (x + y) = - 1" by (simp add: add_eq_0_iff)
  then have "\<bar>k\<bar> * \<bar>x + y\<bar> = 1" by (simp flip: abs_mult)
  then have "\<bar>k\<bar> = 1" by (auto simp: zmult_eq_1_iff)
  with \<open>2 \<le> k\<close> show False by simp
qed

lemma distinct_roots_ZZ: "distinct (roots_ZZ n e k)"
  by (simp add: roots_ZZ_def distinct_map inj_on_def)

lemma roots_ZZ_cases:
  assumes "2 \<le> k"
  shows "roots_ZZ n e k = [] \<or> (\<exists>x. roots_ZZ n e k = [(x, 1)])"
proof (cases "roots_ZZ n e k")
  case Nil
  then show ?thesis by simp
next
  case (Cons a rs)
  obtain x m where a: "a = (x, m)" by (cases a)
  from Cons a have "(x, m) \<in> set (roots_ZZ n e k)" by simp
  then have x: "n * e = x * (k * x + 1)" and m: "m = 1" by (simp_all add: roots_ZZ_iff)
  have "rs = []"
  proof (cases rs)
    case Nil then show ?thesis .
  next
    case (Cons b rs')
    obtain y m' where b: "b = (y, m')" by (cases b)
    from Cons \<open>roots_ZZ n e k = a # rs\<close> b have "(y, m') \<in> set (roots_ZZ n e k)" by simp
    then have "n * e = y * (k * y + 1)" and "m' = 1" by (simp_all add: roots_ZZ_iff)
    with x m assms have "a = b" using root_unique [of k n e x y] by (simp add: a b)
    moreover from distinct_roots_ZZ [of n e k] Cons \<open>roots_ZZ n e k = a # rs\<close> have "a \<noteq> b" by auto
    ultimately show ?thesis by simp
  qed
  with Cons a m show ?thesis by simp
qed

lemma roots_ZZ_eq_single:
  assumes "2 \<le> k" "n * e = x * (k * x + 1)"
  shows "roots_ZZ n e k = [(x, 1)]"
proof -
  from assms(2) have in_set: "(x, 1) \<in> set (roots_ZZ n e k)" by (simp add: roots_ZZ_iff)
  from roots_ZZ_cases [OF assms(1), of n e] in_set show ?thesis by auto
qed

lemma roots_ZZ_empty_iff: "roots_ZZ n e k = [] \<longleftrightarrow> (\<forall>x. n * e \<noteq> x * (k * x + 1))"
proof
  assume "roots_ZZ n e k = []"
  then have "\<And>x. (x, 1) \<notin> set (roots_ZZ n e k)" by simp
  then show "\<forall>x. n * e \<noteq> x * (k * x + 1)" by (simp add: roots_ZZ_iff)
next
  assume a: "\<forall>x. n * e \<noteq> x * (k * x + 1)"
  show "roots_ZZ n e k = []"
  proof (cases "roots_ZZ n e k")
    case Nil then show ?thesis .
  next
    case (Cons a' rs)
    obtain x m where "a' = (x, m)" by (cases a')
    with Cons have "(x, m) \<in> set (roots_ZZ n e k)" by simp
    with a show ?thesis by (simp add: roots_ZZ_iff)
  qed
qed

text \<open>For \<open>k \<ge> 2\<close> the quadratic is bounded below by the square of its argument.\<close>

lemma quad_lower_bound:
  fixes x :: int
  assumes "2 \<le> k"
  shows "x * x \<le> x * (k * x + 1)"
proof -
  have a: "2 * (x * x) \<le> k * (x * x)"
    using assms by (intro mult_right_mono) simp_all
  have "0 \<le> x * (x + 1)"
    by (cases "0 \<le> x") (simp_all add: zero_le_mult_iff)
  then have b: "0 \<le> x * x + x" by (simp add: algebra_simps)
  have "x * (k * x + 1) = k * (x * x) + x" by (simp add: algebra_simps)
  with a b show ?thesis by linarith
qed

subsection \<open>The search loop\<close>

text \<open>
  The loop started at \<open>k\<close> stops at the first of \<open>k, k + 2, k + 4, \<dots>\<close> that has a root, and
  runs forever when none has.
\<close>

lemma search_found:
  assumes "roots_ZZ n e (k + 2 * int j) \<noteq> []"
    and "\<forall>i<j. roots_ZZ n e (k + 2 * int i) = []"
  shows "search n e k t =
    Some (roots_ZZ n e (k + 2 * int j), k + 2 * int j + 2, t @ map (\<lambda>i. k + 2 * int i) [0..<Suc j])"
  using assms
proof (induction j arbitrary: k t)
  case 0
  then show ?case by (subst search.simps) (simp add: Let_def)
next
  case (Suc j)
  from Suc.prems(2) have empty: "roots_ZZ n e k = []" by force
  have shift: "k + 2 + 2 * int i = k + 2 * int (Suc i)" for i by simp
  have "roots_ZZ n e (k + 2 + 2 * int j) \<noteq> []"
    using Suc.prems(1) by (simp add: shift)
  moreover have "\<forall>i<j. roots_ZZ n e (k + 2 + 2 * int i) = []"
    using Suc.prems(2) by (auto simp: shift simp del: of_nat_Suc)
  ultimately have IH: "search n e (k + 2) (t @ [k]) =
    Some (roots_ZZ n e (k + 2 + 2 * int j), k + 2 + 2 * int j + 2,
          (t @ [k]) @ map (\<lambda>i. k + 2 + 2 * int i) [0..<Suc j])"
    by (rule Suc.IH)
  have m: "map (\<lambda>i. k + 2 * int i) [0..<Suc (Suc j)] = k # map (\<lambda>i. k + 2 + 2 * int i) [0..<Suc j]"
    by (simp only: upt_conv_Cons [of 0 "Suc (Suc j)"] map_Suc_upt [symmetric] list.map)
       (simp add: comp_def)
  have "search n e k t = search n e (k + 2) (t @ [k])"
    by (subst search.simps) (simp add: Let_def empty)
  with IH m show ?case by (simp add: shift del: upt_Suc of_nat_Suc)
qed

lemma search_diverges:
  assumes "\<forall>j. roots_ZZ n e (k + 2 * int j) = []"
  shows "search n e k t = None"
proof (rule ccontr)
  assume "search n e k t \<noteq> None"
  then obtain y where y: "search n e k t = Some y" by auto
  have "\<exists>j. roots_ZZ n e (k + 2 * int j) \<noteq> []"
  proof (rule search.raw_induct [where P = "\<lambda>n e k t y. \<exists>j. roots_ZZ n e (k + 2 * int j) \<noteq> []", OF _ y])
    fix f n e k tested y
    assume IH: "\<And>n e k t y. f n e k t = Some y \<Longrightarrow> \<exists>j. roots_ZZ n e (k + 2 * int j) \<noteq> []"
      and step: "(let r = roots_ZZ n e k; tested' = tested @ [k]; k' = k + 2
        in if r = [] then f n e k' tested' else Some (r, k', tested')) = Some y"
    show "\<exists>j. roots_ZZ n e (k + 2 * int j) \<noteq> []"
    proof (cases "roots_ZZ n e k = []")
      case True
      with step have "f n e (k + 2) (tested @ [k]) = Some y" by (simp add: Let_def)
      then obtain j where "roots_ZZ n e (k + 2 + 2 * int j) \<noteq> []" using IH by blast
      then have "roots_ZZ n e (k + 2 * int (Suc j)) \<noteq> []" by (simp add: add.assoc)
      then show ?thesis by blast
    next
      case False
      then have "roots_ZZ n e (k + 2 * int 0) \<noteq> []" by simp
      then show ?thesis by blast
    qed
  qed
  with assms show False by simp
qed

lemma search_SomeD:
  assumes "search n e k t = Some (r, k', t')"
  shows "\<exists>j. r = roots_ZZ n e (k + 2 * int j) \<and> r \<noteq> [] \<and> k' = k + 2 * int j + 2
        \<and> t' = t @ map (\<lambda>i. k + 2 * int i) [0..<Suc j]
        \<and> (\<forall>i<j. roots_ZZ n e (k + 2 * int i) = [])"
proof -
  have "\<exists>j. roots_ZZ n e (k + 2 * int j) \<noteq> []"
    using search_diverges [of n e k t] assms by auto
  then obtain j where j: "roots_ZZ n e (k + 2 * int j) \<noteq> []"
    and least: "\<forall>i<j. roots_ZZ n e (k + 2 * int i) = []"
    using exists_least_iff [of "\<lambda>j. roots_ZZ n e (k + 2 * int j) \<noteq> []"] by auto
  from search_found [OF j least, of t] assms show ?thesis
    using j least by auto
qed

lemma search_terminates_iff_aux:
  "(\<exists>y. search n e k t = Some y) \<longleftrightarrow> (\<exists>j. roots_ZZ n e (k + 2 * int j) \<noteq> [])"
proof
  assume "\<exists>y. search n e k t = Some y"
  then have "search n e k t \<noteq> None" by auto
  have "\<not> (\<forall>j. roots_ZZ n e (k + 2 * int j) = [])"
  proof
    assume "\<forall>j. roots_ZZ n e (k + 2 * int j) = []"
    then have "search n e k t = None" by (rule search_diverges)
    with \<open>search n e k t \<noteq> None\<close> show False by simp
  qed
  then show "\<exists>j. roots_ZZ n e (k + 2 * int j) \<noteq> []" by simp
next
  assume "\<exists>j. roots_ZZ n e (k + 2 * int j) \<noteq> []"
  then obtain j where j: "roots_ZZ n e (k + 2 * int j) \<noteq> []"
    and least: "\<forall>i<j. roots_ZZ n e (k + 2 * int i) = []"
    using exists_least_iff [of "\<lambda>j. roots_ZZ n e (k + 2 * int j) \<noteq> []"] by auto
  from search_found [OF j least, of t] show "\<exists>y. search n e k t = Some y" by blast
qed

lemma search_exit:
  assumes "search n e 2 [] = Some (r, k, tested)"
  shows "2 \<le> k - 2" and "even (k - 2)" and "roots_ZZ n e (k - 2) = r" and "r \<noteq> []"
    and "tested \<noteq> []" and "last tested = k - 2"
proof -
  from search_SomeD [OF assms] obtain j where
    r: "r = roots_ZZ n e (2 + 2 * int j)" and ne: "r \<noteq> []" and k: "k = 2 + 2 * int j + 2"
    and t: "tested = [] @ map (\<lambda>i. 2 + 2 * int i) [0..<Suc j]" by blast
  from t have "tested \<noteq> []" "last tested = 2 + 2 * int j" by simp_all
  with r ne k show "2 \<le> k - 2" and "even (k - 2)" and "roots_ZZ n e (k - 2) = r" and "r \<noteq> []"
    and "tested \<noteq> []" and "last tested = k - 2" by simp_all
qed

lemma tested_from_2: "map (\<lambda>i. 2 + 2 * int i) [0..<Suc j] = map (\<lambda>i. 2 * int i) [1..<j + 2]"
proof -
  have "map (\<lambda>i. 2 * int i) [1..<j + 2] = map (\<lambda>i. 2 * int i) (map Suc [0..<Suc j])"
    by (simp only: map_Suc_upt) simp
  also have "\<dots> = map (\<lambda>i. 2 + 2 * int i) [0..<Suc j]" by (simp add: comp_def)
  finally show ?thesis by simp
qed

subsection \<open>Claims about the search\<close>

text \<open>
  C4, as the script behaves: the loop ends with the root list \<open>r\<close>, the final \<open>k\<close> and the
  tested values \<open>tested\<close> exactly when, for some \<open>j\<close>, the tested values are
  \<open>2, 4, \<dots>, 2 * (j + 1)\<close> in this order (all even, strictly increasing, none skipped), none
  before the last has an integer root, the last one has, \<open>r\<close> is its root list and \<open>k\<close> is two
  more. So the loop does stop at the first even \<open>k\<close> whose quadratic has an integer root, of any
  sign and whether or not the root divides \<open>n\<close>.
\<close>

theorem search_tests_even_ascending:
  "search n e 2 [] = Some (r, k, tested) \<longleftrightarrow>
     (\<exists>j. tested = map (\<lambda>i. 2 * int i) [1..<j + 2]
        \<and> (\<forall>i \<in> {1..<j + 1}. roots_ZZ n e (2 * int i) = [])
        \<and> roots_ZZ n e (2 * int (j + 1)) \<noteq> []
        \<and> r = roots_ZZ n e (2 * int (j + 1))
        \<and> k = 2 * int (j + 1) + 2)"
proof
  assume s: "search n e 2 [] = Some (r, k, tested)"
  from search_SomeD [OF s] obtain j where
    r: "r = roots_ZZ n e (2 + 2 * int j)" and ne: "r \<noteq> []" and k: "k = 2 + 2 * int j + 2"
    and t: "tested = [] @ map (\<lambda>i. 2 + 2 * int i) [0..<Suc j]"
    and least: "\<forall>i<j. roots_ZZ n e (2 + 2 * int i) = []" by blast
  have "\<forall>i \<in> {1..<j + 1}. roots_ZZ n e (2 * int i) = []"
  proof
    fix i assume "i \<in> {1..<j + 1}"
    then have "i - 1 < j" and "2 * int i = 2 + 2 * int (i - 1)" by auto
    with least show "roots_ZZ n e (2 * int i) = []" by metis
  qed
  moreover have "2 * int (j + 1) = 2 + 2 * int j" by simp
  ultimately show "\<exists>j. tested = map (\<lambda>i. 2 * int i) [1..<j + 2]
        \<and> (\<forall>i \<in> {1..<j + 1}. roots_ZZ n e (2 * int i) = [])
        \<and> roots_ZZ n e (2 * int (j + 1)) \<noteq> []
        \<and> r = roots_ZZ n e (2 * int (j + 1))
        \<and> k = 2 * int (j + 1) + 2"
    using r ne k t by (auto simp: tested_from_2 simp del: upt_Suc)
next
  assume "\<exists>j. tested = map (\<lambda>i. 2 * int i) [1..<j + 2]
        \<and> (\<forall>i \<in> {1..<j + 1}. roots_ZZ n e (2 * int i) = [])
        \<and> roots_ZZ n e (2 * int (j + 1)) \<noteq> []
        \<and> r = roots_ZZ n e (2 * int (j + 1))
        \<and> k = 2 * int (j + 1) + 2"
  then obtain j where t: "tested = map (\<lambda>i. 2 * int i) [1..<j + 2]"
    and none: "\<forall>i \<in> {1..<j + 1}. roots_ZZ n e (2 * int i) = []"
    and ne: "roots_ZZ n e (2 * int (j + 1)) \<noteq> []"
    and r: "r = roots_ZZ n e (2 * int (j + 1))" and k: "k = 2 * int (j + 1) + 2" by blast
  have eq: "2 * int (j + 1) = 2 + 2 * int j" by simp
  have ne': "roots_ZZ n e (2 + 2 * int j) \<noteq> []" unfolding eq [symmetric] by (rule ne)
  have least: "\<forall>i<j. roots_ZZ n e (2 + 2 * int i) = []"
  proof (intro allI impI)
    fix i assume "i < j"
    then have "i + 1 \<in> {1..<j + 1}" and "2 + 2 * int i = 2 * int (i + 1)" by simp_all
    with none show "roots_ZZ n e (2 + 2 * int i) = []" by metis
  qed
  from search_found [OF ne' least, of "[]"]
  have "search n e 2 [] = Some (roots_ZZ n e (2 + 2 * int j), 2 + 2 * int j + 2,
      map (\<lambda>i. 2 + 2 * int i) [0..<Suc j])" by simp
  with t r k show "search n e 2 [] = Some (r, k, tested)"
    by (simp only: tested_from_2 eq)
qed

theorem search_tests_even_ascending_witness:
  "search 6 5 2 [] = Some ([(- 2, 1)], 10, [2, 4, 6, 8])
   \<and> (\<exists>j. [2, 4, 6, 8] = map (\<lambda>i. 2 * int i) [1..<j + 2]
           \<and> (\<forall>i \<in> {1..<j + 1}. roots_ZZ 6 5 (2 * int i) = [])
           \<and> roots_ZZ 6 5 (2 * int (j + 1)) \<noteq> []
           \<and> [(- 2, 1)] = roots_ZZ 6 5 (2 * int (j + 1))
           \<and> (10::int) = 2 * int (j + 1) + 2)"
proof -
  have s: "search 6 5 2 [] = Some ([(- 2, 1)], 10, [2, 4, 6, 8])" by code_simp
  from search_tests_even_ascending [of 6 5 "[(- 2, 1)]" 10 "[2, 4, 6, 8]"] s show ?thesis by blast
qed

text \<open>
  C4 as stated fails for a root that is valid in the sense of a positive divisor of \<open>n\<close>:
  on \<open>n = 15\<close>, \<open>e = 7\<close> the loop stops at \<open>k = 2\<close> with the root \<open>7\<close>, which does not divide
  \<open>15\<close>, while the first \<open>k\<close> with a positive root that divides \<open>15\<close> is \<open>k = 4\<close>, with the
  root \<open>5\<close>.
\<close>

theorem search_stops_before_first_factor:
  "search 15 7 2 [] = Some ([(7, 1)], 4, [2]) \<and> roots_ZZ 15 7 2 = [(7, 1)] \<and> \<not> (7::int) dvd 15
   \<and> roots_ZZ 15 7 4 = [(5, 1)] \<and> (0::int) < 5 \<and> (5::int) dvd 15"
proof -
  have "search 15 7 2 [] = Some ([(7, 1)], 4, [2])" by code_simp
  moreover have "roots_ZZ 15 7 2 = [(7, 1)]" by code_simp
  moreover have "roots_ZZ 15 7 4 = [(5, 1)]" by code_simp
  moreover have "\<not> (7::int) dvd 15" "(5::int) dvd 15" by simp_all
  ultimately show ?thesis by simp
qed

text \<open>
  C2, as the script behaves: when the loop ends it holds exactly one root \<open>p\<close>, of
  multiplicity one, with \<open>n * e = p * (k\<^sub>0 * p + 1)\<close> for the even \<open>k\<^sub>0 \<ge> 2\<close> at which it was
  found, which is the final \<open>k\<close> less two; so \<open>p\<close> divides \<open>n * e\<close>. Nothing makes \<open>p\<close>
  positive or a divisor of \<open>n\<close>, and the script does not test it.
\<close>

theorem search_root_divides_product:
  assumes "search n e 2 [] = Some (r, k, tested)"
  shows "\<exists>p. r = [(p, 1)] \<and> n * e = p * ((k - 2) * p + 1) \<and> p dvd n * e
           \<and> 2 \<le> k - 2 \<and> even (k - 2) \<and> last tested = k - 2"
proof -
  note k = search_exit(1,2,6) [OF assms] and r = search_exit(3,4) [OF assms]
  from roots_ZZ_cases [OF k(1), of n e] r obtain p where p: "r = [(p, 1)]" by auto
  with r have "(p, 1) \<in> set (roots_ZZ n e (k - 2))" by simp
  then have eq: "n * e = p * ((k - 2) * p + 1)" by (simp add: roots_ZZ_iff)
  then have "p dvd n * e" by simp
  with p eq k show ?thesis by blast
qed

theorem search_root_divides_product_witness:
  "search 15 7 2 [] = Some ([(7, 1)], 4, [2])
   \<and> (\<exists>p. [(7, 1)] = [(p, 1::nat)] \<and> (15::int) * 7 = p * ((4 - 2) * p + 1) \<and> p dvd 15 * 7
           \<and> (2::int) \<le> 4 - 2 \<and> even ((4::int) - 2) \<and> last [2] = (4::int) - 2)"
proof -
  have s: "search 15 7 2 [] = Some ([(7, 1)], 4, [2])" by code_simp
  from search_root_divides_product [OF s] s show ?thesis by blast
qed

text \<open>
  C2 as stated fails: for the generated key \<open>p = 5\<close>, \<open>q = 3\<close>, \<open>e = 7\<close> the loop ends at
  \<open>k = 2\<close> with the root \<open>7\<close>, which does not divide \<open>n = 15\<close>; for the generated key
  \<open>p = 3\<close>, \<open>q = 2\<close>, \<open>e = 5\<close> it ends with the negative root \<open>- 2\<close>.
\<close>

theorem found_root_not_factor:
  "search 15 7 2 [] = Some ([(7, 1)], 4, [2]) \<and> \<not> (7::int) dvd 15
   \<and> search 6 5 2 [] = Some ([(- 2, 1)], 10, [2, 4, 6, 8]) \<and> \<not> 0 < (- 2::int)"
proof -
  have "search 15 7 2 [] = Some ([(7, 1)], 4, [2])" by code_simp
  moreover have "search 6 5 2 [] = Some ([(- 2, 1)], 10, [2, 4, 6, 8])" by code_simp
  moreover have "\<not> (7::int) dvd 15" by simp
  ultimately show ?thesis by simp
qed

text \<open>
  C10, as the script behaves: at the end of the loop \<open>k\<close> is two more than the last value for
  which roots were computed, and the root \<open>p = r[0][0]\<close> satisfies
  \<open>n * e = p * ((k - 2) * p + 1)\<close>. It satisfies \<open>n * e = p * (k * p + 1)\<close> for the final \<open>k\<close> as
  well exactly when \<open>n * e = 0\<close>, where the root is \<open>0\<close>.
\<close>

theorem exit_k_two_past_success:
  assumes "search n e 2 [] = Some (r, k, tested)"
  shows "last tested = k - 2 \<and> r = roots_ZZ n e (k - 2) \<and> r \<noteq> []
         \<and> n * e = fst (hd r) * ((k - 2) * fst (hd r) + 1)
         \<and> (n * e = fst (hd r) * (k * fst (hd r) + 1) \<longleftrightarrow> n * e = 0)"
proof -
  note k = search_exit(1,6) [OF assms] and r = search_exit(3,4) [OF assms]
  from roots_ZZ_cases [OF k(1), of n e] r obtain p where p: "r = [(p, 1)]" by auto
  with r have "(p, 1) \<in> set (roots_ZZ n e (k - 2))" by simp
  then have eq: "n * e = p * ((k - 2) * p + 1)" by (simp add: roots_ZZ_iff)
  have zero: "p = 0 \<longleftrightarrow> n * e = 0"
  proof
    assume "p = 0" with eq show "n * e = 0" by simp
  next
    assume "n * e = 0"
    with eq have "p = 0 \<or> (k - 2) * p = - 1" by (auto simp: add_eq_0_iff)
    moreover have "(k - 2) * p \<noteq> - 1"
    proof
      assume "(k - 2) * p = - 1"
      then have "\<bar>k - 2\<bar> * \<bar>p\<bar> = 1" by (simp flip: abs_mult)
      then have "\<bar>k - 2\<bar> = 1" by (auto simp: zmult_eq_1_iff)
      with k(1) show False by simp
    qed
    ultimately show "p = 0" by simp
  qed
  have "n * e = p * (k * p + 1) \<longleftrightarrow> p = 0"
  proof
    assume "n * e = p * (k * p + 1)"
    with eq have "p * ((k - 2) * p + 1) = p * (k * p + 1)" by simp
    then have "2 * (p * p) = 0" by (simp add: algebra_simps)
    then show "p = 0" by simp
  next
    assume "p = 0" with eq show "n * e = p * (k * p + 1)" by simp
  qed
  with zero have "n * e = p * (k * p + 1) \<longleftrightarrow> n * e = 0" by simp
  with eq p k r show ?thesis by simp
qed

theorem exit_k_two_past_success_witness:
  "search 21 5 2 [] = Some ([(7, 1)], 4, [2])
   \<and> last [2] = (4::int) - 2 \<and> [(7, 1)] = roots_ZZ 21 5 (4 - 2)
   \<and> (21::int) * 5 = fst (hd [(7::int, 1::nat)]) * ((4 - 2) * fst (hd [(7::int, 1::nat)]) + 1)
   \<and> (21::int) * 5 \<noteq> fst (hd [(7::int, 1::nat)]) * (4 * fst (hd [(7::int, 1::nat)]) + 1)"
proof -
  have s: "search 21 5 2 [] = Some ([(7, 1)], 4, [2])" by code_simp
  have nz: "(21::int) * 5 \<noteq> 0" by simp
  from exit_k_two_past_success [OF s] s nz show ?thesis by blast
qed

text \<open>
  C10 as stated fails: on \<open>n = 0\<close>, \<open>e = 3\<close> the loop ends with the root \<open>0\<close> and \<open>k = 4\<close>, and the
  root does satisfy \<open>n * e = p * (k * p + 1)\<close> for this final \<open>k\<close>.
\<close>

theorem exit_k_equation_holds_at_zero:
  "search 0 3 2 [] = Some ([(0, 1)], 4, [2])
   \<and> (0::int) * 3 = fst (hd [(0::int, 1::nat)]) * (4 * fst (hd [(0::int, 1::nat)]) + 1)"
proof -
  have "search 0 3 2 [] = Some ([(0, 1)], 4, [2])" by code_simp
  then show ?thesis by simp
qed

text \<open>
  C3, as the script behaves: the loop has no iteration ceiling and no failure exit. It
  ends exactly when some even \<open>k \<ge> 2\<close> has an integer root of \<open>n * e = x * (k * x + 1)\<close>, and
  runs forever otherwise.
\<close>

theorem search_terminates_iff:
  "(\<exists>y. search n e 2 [] = Some y) \<longleftrightarrow> (\<exists>k x. 2 \<le> k \<and> even k \<and> n * e = x * (k * x + 1))"
proof
  assume "\<exists>y. search n e 2 [] = Some y"
  then obtain j where "roots_ZZ n e (2 + 2 * int j) \<noteq> []"
    unfolding search_terminates_iff_aux by blast
  then obtain x where "n * e = x * ((2 + 2 * int j) * x + 1)"
    by (auto simp: roots_ZZ_empty_iff)
  moreover have "2 \<le> 2 + 2 * int j" "even (2 + 2 * int j)" by simp_all
  ultimately show "\<exists>k x. 2 \<le> k \<and> even k \<and> n * e = x * (k * x + 1)" by blast
next
  assume "\<exists>k x. 2 \<le> k \<and> even k \<and> n * e = x * (k * x + 1)"
  then obtain k x where k: "2 \<le> k" "even k" and x: "n * e = x * (k * x + 1)" by blast
  from k(2) obtain c where c: "k = 2 * c" by (elim evenE)
  define j where "j = nat (c - 1)"
  from k(1) c have "k = 2 + 2 * int j" by (simp add: j_def)
  with x have "roots_ZZ n e (2 + 2 * int j) \<noteq> []" by (auto simp: roots_ZZ_empty_iff)
  then show "\<exists>y. search n e 2 [] = Some y" unfolding search_terminates_iff_aux by blast
qed

theorem search_terminates_iff_witness:
  "(\<exists>k x. 2 \<le> k \<and> even k \<and> (6::int) * 5 = x * (k * x + 1)) \<and> (\<exists>y. search 6 5 2 [] = Some y)"
proof -
  have "(2::int) \<le> 8 \<and> even (8::int) \<and> (6::int) * 5 = (- 2) * (8 * (- 2) + 1)" by simp
  then have ex: "\<exists>k x. 2 \<le> k \<and> even k \<and> (6::int) * 5 = x * (k * x + 1)" by blast
  with search_terminates_iff [of 6 5] show ?thesis by blast
qed

lemma no_root_12:
  assumes "(12::int) = x * (k * x + 1)" "2 \<le> k" "even k"
  shows False
proof -
  from quad_lower_bound [OF assms(2), of x] assms(1) have "x * x \<le> 12" by simp
  then have "\<bar>x\<bar>\<^sup>2 < 4\<^sup>2" by (simp add: power2_eq_square)
  then have "\<bar>x\<bar> < 4" by (rule power2_less_imp_less) simp
  then have "x = - 3 \<or> x = - 2 \<or> x = - 1 \<or> x = 0 \<or> x = 1 \<or> x = 2 \<or> x = 3" by arith
  then show False
    using assms by (elim disjE; simp; presburger)
qed

text \<open>C3 as stated fails: on \<open>n = 4\<close>, \<open>e = 3\<close> the loop never ends.\<close>

theorem search_4_3_never_terminates: "search 4 3 2 [] = None"
proof (rule search_diverges, rule allI)
  fix j
  have "\<forall>x. (4::int) * 3 \<noteq> x * ((2 + 2 * int j) * x + 1)"
  proof (rule allI, rule notI)
    fix x assume "(4::int) * 3 = x * ((2 + 2 * int j) * x + 1)"
    then have "(12::int) = x * ((2 + 2 * int j) * x + 1)" by simp
    then show False by (rule no_root_12) simp_all
  qed
  then show "roots_ZZ 4 3 (2 + 2 * int j) = []" unfolding roots_ZZ_empty_iff .
qed

subsection \<open>Arithmetic of the weak key\<close>

text \<open>
  C8: for odd primes \<open>p\<close>, \<open>q\<close>, \<open>e\<close> with \<open>q * e = k * p + 1\<close>, the multiplier \<open>k\<close> is even.
\<close>

theorem weak_key_k_even:
  assumes "is_prime p" "is_prime q" "is_prime e" "odd p" "odd q" "odd e"
    and "q * e = k * p + 1"
  shows "even k"
proof -
  from \<open>odd q\<close> \<open>odd e\<close> have "odd (q * e)" by simp
  with assms(7) have "odd (k * p + 1)" by simp
  then have "even (k * p)" by simp
  with \<open>odd p\<close> show "even k" by simp
qed

theorem weak_key_k_even_witness:
  "is_prime 7 \<and> is_prime 3 \<and> is_prime 5 \<and> odd (7::int) \<and> odd (3::int) \<and> odd (5::int)
   \<and> (3::int) * 5 = 2 * 7 + 1 \<and> even (2::int)"
proof -
  have h: "is_prime 7" "is_prime 3" "is_prime 5" by code_simp+
  have o: "odd (7::int)" "odd (3::int)" "odd (5::int)" by simp_all
  have eq: "(3::int) * 5 = 2 * 7 + 1" by simp
  from weak_key_k_even [OF h o eq] h show ?thesis by simp
qed

subsection \<open>Division by the root\<close>

lemma quotient_of_snd_1_iff: "snd (quotient_of x) = 1 \<longleftrightarrow> x \<in> \<int>"
proof
  assume a: "snd (quotient_of x) = 1"
  obtain a' b where ab: "quotient_of x = (a', b)" by (cases "quotient_of x")
  with a have "b = 1" by simp
  with ab have "x = of_int a'" using quotient_of_div [OF ab] by simp
  then show "x \<in> \<int>" by simp
next
  assume "x \<in> \<int>"
  then obtain z where "x = of_int z" by (elim Ints_cases)
  then show "snd (quotient_of x) = 1" by simp
qed

lemma nonint_modulus:
  assumes "p \<noteq> 0" "\<not> p dvd n"
  shows "(of_int p - 1) * (of_int n / of_int p - 1) \<notin> (\<int> :: rat set)"
proof
  assume "(of_int p - 1) * (of_int n / of_int p - 1) \<in> (\<int> :: rat set)"
  then obtain z where z: "(of_int p - 1) * (of_int n / of_int p - 1) = (of_int z :: rat)"
    by (elim Ints_cases)
  have "(of_int p - 1) * (of_int n / of_int p - 1) * (of_int p :: rat) = (of_int p - 1) * (of_int n - of_int p)"
    using assms(1) by (simp add: field_simps)
  with z have "(of_int (z * p) :: rat) = of_int ((p - 1) * (n - p))" by simp
  then have "z * p = (p - 1) * (n - p)" by (simp only: of_int_eq_iff)
  then have "p dvd (p - 1) * (n - p)" by (metis dvd_triv_right)
  moreover have "coprime p (p - 1)" by simp
  ultimately have "p dvd n - p" by (simp add: coprime_dvd_mult_right_iff)
  then have "p dvd n" by (metis dvd_diffD1 dvd_refl dvd_add_right_iff diff_add_cancel)
  with assms(2) show False by simp
qed

lemma rat_div_Ints_iff:
  assumes "p \<noteq> 0"
  shows "(of_int n / of_int p :: rat) \<in> \<int> \<longleftrightarrow> p dvd n"
proof
  assume "(of_int n / of_int p :: rat) \<in> \<int>"
  then obtain z where "(of_int n / of_int p :: rat) = of_int z" by (elim Ints_cases)
  with assms have "(of_int n :: rat) = of_int (z * p)" by (simp add: field_simps)
  then have "n = z * p" by (simp only: of_int_eq_iff)
  then show "p dvd n" by simp
next
  assume "p dvd n"
  then obtain c where "n = p * c" by (elim dvdE)
  with assms show "(of_int n / of_int p :: rat) \<in> \<int>" by simp
qed

text \<open>
  C5, as the script behaves: \<open>q = n / p\<close> is an exact rational division with no test of
  divisibility. For \<open>p \<noteq> 0\<close> it always yields a \<open>q\<close> with \<open>q * p = n\<close>, an integer exactly when
  \<open>p\<close> divides \<open>n\<close>. When \<open>p\<close> does not divide \<open>n\<close> the script goes on with the non-integer
  \<open>q\<close>, and it is \<open>inverse_mod\<close> that raises \<open>TypeError\<close> on the non-integer modulus.
\<close>

theorem inexact_division_continues:
  assumes "p \<noteq> 0"
  shows "\<exists>q. rat_div n p = Inr q \<and> q * of_int p = of_int n \<and> (q \<in> \<int> \<longleftrightarrow> p dvd n)
             \<and> (\<not> p dvd n \<longrightarrow> finish n e c ((p, m) # rs) k = Inl TypeError)"
proof -
  let ?q = "of_int n / of_int p :: rat"
  have 1: "rat_div n p = Inr ?q" using assms by (simp add: rat_div_def)
  have 2: "?q * of_int p = of_int n" using assms by simp
  have 3: "?q \<in> \<int> \<longleftrightarrow> p dvd n" using assms by (rule rat_div_Ints_iff)
  have 4: "finish n e c ((p, m) # rs) k = Inl TypeError" if "\<not> p dvd n"
  proof -
    have "snd (quotient_of ((of_int p - 1) * (?q - 1))) \<noteq> 1"
      unfolding quotient_of_snd_1_iff by (rule nonint_modulus [OF assms that])
    then have "inverse_mod e ((of_int p - 1) * (?q - 1)) = Inl TypeError"
      by (auto simp: inverse_mod_def split: prod.splits)
    with 1 show ?thesis by (simp add: finish_def)
  qed
  from 1 2 3 4 show ?thesis by blast
qed

theorem inexact_division_continues_witness:
  "(7::int) \<noteq> 0 \<and> \<not> (7::int) dvd 15
   \<and> (\<exists>q. rat_div 15 7 = Inr q \<and> q * of_int 7 = of_int 15 \<and> (q \<in> \<int> \<longleftrightarrow> (7::int) dvd 15)
          \<and> finish 15 7 8 [(7, 1)] 4 = Inl TypeError)"
proof -
  have nz: "(7::int) \<noteq> 0" and nd: "\<not> (7::int) dvd 15" by simp_all
  from inexact_division_continues [OF nz, of 15 7 8 1 "[]" 4] nz nd show ?thesis by blast
qed

text \<open>
  C5 as stated fails: for \<open>n = 15\<close>, \<open>e = 7\<close> the root is \<open>7\<close> and \<open>15 mod 7 \<noteq> 0\<close>, yet the
  division returns the rational \<open>15/7\<close> (denominator \<open>7\<close>); the run ends later, with
  \<open>TypeError\<close>.
\<close>

theorem division_by_nonfactor_succeeds:
  "search 15 7 2 [] = Some ([(7, 1)], 4, [2]) \<and> (15::int) mod 7 \<noteq> 0
   \<and> rat_div 15 7 = Inr (15 / 7) \<and> snd (quotient_of (15 / 7)) = 7
   \<and> recover 15 7 8 = Some (Inl TypeError)"
proof -
  have "search 15 7 2 [] = Some ([(7, 1)], 4, [2])" by code_simp
  moreover have "rat_div 15 7 = Inr (15 / 7)" by (simp add: rat_div_def)
  moreover have "snd (quotient_of (15 / 7)) = 7" by code_simp
  moreover have "recover 15 7 8 = Some (Inl TypeError)" by code_simp
  ultimately show ?thesis by simp
qed

subsection \<open>Inputs that are not keys\<close>

lemma search_zero_product:
  assumes "n * e = 0"
  shows "search n e 2 [] = Some ([(0, 1)], 4, [2])"
proof -
  have "roots_ZZ n e 2 = [(0, 1)]" using assms by (intro roots_ZZ_eq_single) simp_all
  then show ?thesis by (subst search.simps) (simp add: Let_def)
qed

lemma search_negative_product:
  assumes "n * e < 0"
  shows "search n e 2 [] = None"
proof (rule search_diverges, rule allI)
  fix j
  have "n * e \<noteq> x * ((2 + 2 * int j) * x + 1)" for x
    using quad_lower_bound [of "2 + 2 * int j" x] assms zero_le_square [of x] by linarith
  then show "roots_ZZ n e (2 + 2 * int j) = []" unfolding roots_ZZ_empty_iff by blast
qed

text \<open>
  C6, as the script behaves: no input is validated. A run yields no result when
  \<open>n * e \<le> 0\<close>, though not by a validation error and not before the search: for
  \<open>n * e = 0\<close> the search finds the root \<open>0\<close> and \<open>n / p\<close> raises \<open>ZeroDivisionError\<close>; for
  \<open>n * e < 0\<close> the search never ends.
\<close>

theorem no_result_without_positive_product:
  assumes "n * e \<le> 0"
  shows "recover n e c = (if n * e = 0 then Some (Inl ZeroDivisionError) else None)"
proof (cases "n * e = 0")
  case True
  then show ?thesis
    by (simp add: recover_def search_zero_product finish_def rat_div_def)
next
  case False
  with assms have "n * e < 0" by (simp only: order_le_less) simp
  then have "search n e 2 [] = None" by (rule search_negative_product)
  with False show ?thesis by (simp add: recover_def)
qed

theorem no_result_without_positive_product_witness:
  "(0::int) * 3 \<le> 0 \<and> recover 0 3 5 = Some (Inl ZeroDivisionError)"
proof -
  have h: "(0::int) * 3 \<le> 0" by simp
  from no_result_without_positive_product [OF h, of 5] show ?thesis by simp
qed

text \<open>
  C6 as stated fails: with \<open>e = 1\<close> and a ciphertext \<open>22 \<ge> n = 15\<close> the script computes a
  result.
\<close>

theorem malformed_input_accepted:
  "(1::int) \<le> 1 \<and> (15::int) \<le> 22
   \<and> recover 15 1 22 = Some (Inr \<lparr>v_k = 4, v_p = - 3, v_q = - 5, v_d = 1, v_plaintext = 7,
        v_output = [char_of (7::int), CHR 0x0A]\<rparr>)"
proof -
  have "recover 15 1 22 = Some (Inr \<lparr>v_k = 4, v_p = - 3, v_q = - 5, v_d = 1, v_plaintext = 7,
        v_output = [char_of (7::int), CHR 0x0A]\<rparr>)" by code_simp
  then show ?thesis by simp
qed

subsection \<open>The printed bytes\<close>

lemma flag_slice_eq: "flag_slice m = drop (length (long_to_bytes m) - 48) (long_to_bytes m)"
proof -
  have "nat (max 0 (int l - 48)) = l - 48" for l by arith
  then show ?thesis by (simp add: flag_slice_def slice_from_def Let_def)
qed

text \<open>
  C9, as the script behaves: the slice is cut at the fixed 48 bytes, not at the length of the
  flag. When the bytes of the plaintext are some padding followed by the flag, the sliced
  bytes are the flag exactly when the flag has 48 bytes, or there is no padding and the flag
  has at most 48 bytes; for a flag of 48 bytes the script prints the flag and a newline.
\<close>

theorem flag_slice_is_flag_iff:
  assumes "long_to_bytes m = pad @ flag"
  shows "(flag_slice m = flag \<longleftrightarrow> length flag = 48 \<or> (pad = [] \<and> length flag \<le> 48))
         \<and> (length flag = 48 \<longrightarrow> printed m = flag @ [CHR 0x0A])"
proof -
  have sl: "flag_slice m = drop (length pad + length flag - 48) (pad @ flag)"
    by (simp add: flag_slice_eq assms)
  have iff: "flag_slice m = flag \<longleftrightarrow> length flag = 48 \<or> (pad = [] \<and> length flag \<le> 48)"
  proof
    assume "flag_slice m = flag"
    then have "length (drop (length pad + length flag - 48) (pad @ flag)) = length flag"
      by (simp only: sl)
    then have "length pad + length flag - (length pad + length flag - 48) = length flag"
      by (simp only: length_drop length_append)
    then have "length flag = 48 \<or> (length pad = 0 \<and> length flag \<le> 48)" by arith
    then show "length flag = 48 \<or> (pad = [] \<and> length flag \<le> 48)" by simp
  next
    assume "length flag = 48 \<or> (pad = [] \<and> length flag \<le> 48)"
    then show "flag_slice m = flag" by (auto simp: sl)
  qed
  then show ?thesis by (auto simp: printed_def)
qed

theorem flag_slice_is_flag_iff_witness:
  "long_to_bytes (2 * 256 ^ 48 + 65) = [char_of (2::int)] @ (replicate 47 (char_of (0::int)) @ [char_of (65::int)])
   \<and> length (replicate 47 (char_of (0::int)) @ [char_of (65::int)]) = 48
   \<and> flag_slice (2 * 256 ^ 48 + 65) = replicate 47 (char_of (0::int)) @ [char_of (65::int)]
   \<and> printed (2 * 256 ^ 48 + 65) = (replicate 47 (char_of (0::int)) @ [char_of (65::int)]) @ [CHR 0x0A]"
proof -
  have a: "long_to_bytes (2 * 256 ^ 48 + 65) = [char_of (2::int)] @ (replicate 47 (char_of (0::int)) @ [char_of (65::int)])"
    by code_simp
  have c: "length (replicate 47 (char_of (0::int)) @ [char_of (65::int)]) = 48" by simp
  from flag_slice_is_flag_iff [OF a] a c show ?thesis by blast
qed

text \<open>
  C9 as stated fails: the bytes of the plaintext \<open>577\<close> are one padding byte \<open>2\<close> followed by
  the one-byte flag \<open>A\<close>, and the slice of the script is both bytes, not the flag.
\<close>

theorem flag_slice_keeps_padding:
  "long_to_bytes 577 = [char_of (2::int)] @ [CHR ''A''] \<and> flag_slice 577 = [char_of (2::int), CHR ''A'']
   \<and> flag_slice 577 \<noteq> [CHR ''A'']"
proof -
  have "long_to_bytes 577 = [char_of (2::int)] @ [CHR ''A'']" by code_simp
  moreover have "flag_slice 577 = [char_of (2::int), CHR ''A'']" by code_simp
  ultimately show ?thesis by simp
qed

subsection \<open>Determinism\<close>

lemma is_roots_roots_ZZ: "is_roots n e k (roots_ZZ n e k)"
proof -
  have "distinct (map fst (roots_ZZ n e k))"
    by (simp add: roots_ZZ_def comp_def)
  moreover have "set (roots_ZZ n e k) = {(x, m). n * e - x * (k * x + 1) = 0 \<and> m = 1}"
    using roots_ZZ_iff [of _ _ n e k] by auto
  ultimately show ?thesis by (simp add: is_roots_def)
qed

lemma is_roots_unique:
  assumes "2 \<le> k" "is_roots n e k r" "is_roots n e k r'"
  shows "r = r'"
proof -
  have single: "s = [] \<or> (\<exists>a. s = [a])" if s: "is_roots n e k s" for s
  proof (cases s)
    case Nil then show ?thesis by simp
  next
    case (Cons a rs)
    have "rs = []"
    proof (cases rs)
      case Nil then show ?thesis .
    next
      case (Cons b rs')
      obtain x m y m' where ab: "a = (x, m)" "b = (y, m')" by (cases a, cases b)
      from s \<open>s = a # rs\<close> Cons ab have "x \<noteq> y" by (simp add: is_roots_def)
      moreover from s \<open>s = a # rs\<close> Cons ab
      have "(x, m) \<in> {(x, m). n * e - x * (k * x + 1) = 0 \<and> m = 1}"
        and "(y, m') \<in> {(x, m). n * e - x * (k * x + 1) = 0 \<and> m = 1}"
        unfolding is_roots_def by (metis list.set_intros(1), metis list.set_intros(1,2))
      then have "n * e = x * (k * x + 1)" "n * e = y * (k * y + 1)" by simp_all
      with assms(1) have "x = y" by (rule root_unique)
      ultimately show ?thesis by simp
    qed
    with Cons show ?thesis by simp
  qed
  from assms(2,3) have eq: "set r = set r'" by (simp add: is_roots_def)
  from single [OF assms(2)] single [OF assms(3)] eq show ?thesis by auto
qed

lemma loop_run_deterministic:
  assumes "loop_run n e k a" "loop_run n e k b" "2 \<le> k"
  shows "a = b"
  using assms
proof (induction arbitrary: b rule: loop_run.induct)
  case (loop_exit n e k r)
  from loop_exit.prems(1) show ?case
  proof (cases rule: loop_run.cases)
    case (loop_exit r')
    with \<open>is_roots n e k r\<close> \<open>2 \<le> k\<close> show ?thesis using is_roots_unique by blast
  next
    case loop_again
    with \<open>is_roots n e k r\<close> \<open>2 \<le> k\<close> \<open>r \<noteq> []\<close> show ?thesis using is_roots_unique by blast
  qed
next
  case (loop_again n e k res)
  from loop_again.prems(1) show ?case
  proof (cases rule: loop_run.cases)
    case (loop_exit r')
    with \<open>is_roots n e k []\<close> \<open>2 \<le> k\<close> show ?thesis using is_roots_unique by blast
  next
    case loop_again
    with loop_again.IH [of b] \<open>2 \<le> k\<close> show ?thesis by simp
  qed
qed

lemma search_loop_run:
  assumes "search n e k t = Some (r, k', t')"
  shows "loop_run n e k (r, k')"
proof -
  have run: "loop_run n e k (roots_ZZ n e (k + 2 * int j), k + 2 * int j + 2)"
    if "roots_ZZ n e (k + 2 * int j) \<noteq> []" "\<forall>i<j. roots_ZZ n e (k + 2 * int i) = []" for j k
    using that
  proof (induction j arbitrary: k)
    case 0
    then show ?case using loop_exit [OF is_roots_roots_ZZ, of n e k] by simp
  next
    case (Suc j)
    have shift: "k + 2 + 2 * int i = k + 2 * int (Suc i)" for i by simp
    from Suc.prems(2) have "roots_ZZ n e (k + 2 * int 0) = []" by blast
    then have empty: "is_roots n e k []" using is_roots_roots_ZZ [of n e k] by simp
    have "roots_ZZ n e (k + 2 + 2 * int j) \<noteq> []" using Suc.prems(1) by (simp add: shift)
    moreover have "\<forall>i<j. roots_ZZ n e (k + 2 + 2 * int i) = []"
      using Suc.prems(2) by (auto simp: shift simp del: of_nat_Suc)
    ultimately have "loop_run n e (k + 2) (roots_ZZ n e (k + 2 + 2 * int j), k + 2 + 2 * int j + 2)"
      by (rule Suc.IH)
    with empty show ?case by (auto intro: loop_run.loop_again simp: shift simp del: of_nat_Suc)
  qed
  from search_SomeD [OF assms] obtain j where
    "r = roots_ZZ n e (k + 2 * int j)" "r \<noteq> []" "k' = k + 2 * int j + 2"
    "\<forall>i<j. roots_ZZ n e (k + 2 * int i) = []" by blast
  with run [where j = j and k = k] show ?thesis by simp
qed

lemma recover_script_run:
  assumes "recover n e c = Some res"
  shows "script_run n e c res"
proof -
  from assms obtain r k t where s: "search n e 2 [] = Some (r, k, t)" and res: "res = finish n e c r k"
    by (auto simp: recover_def split: option.splits)
  from search_loop_run [OF s] have "script_run n e c (finish n e c r k)" by (rule script)
  with res show ?thesis by simp
qed

text \<open>
  C7: two runs of the script on the same \<open>n\<close>, \<open>e\<close> and ciphertext end alike, with the same
  error or the same \<open>k\<close>, \<open>p\<close>, \<open>q\<close>, \<open>d\<close>, plaintext and output, whatever order the root
  finder lists its roots in: from \<open>k = 2\<close> on the quadratic has at most one integer root.
\<close>

theorem script_run_deterministic:
  assumes "script_run n e c a" and "script_run n e c b"
  shows "a = b"
proof -
  from assms(1) obtain r k where 1: "loop_run n e 2 (r, k)" and a: "a = finish n e c r k"
    by (auto elim: script_run.cases)
  from assms(2) obtain r' k' where 2: "loop_run n e 2 (r', k')" and b: "b = finish n e c r' k'"
    by (auto elim: script_run.cases)
  from loop_run_deterministic [OF 1 2] have "(r, k) = (r', k')" by simp
  with a b show ?thesis by simp
qed

theorem script_run_deterministic_witness:
  "script_run 21 5 16 (Inr \<lparr>v_k = 4, v_p = 7, v_q = 3, v_d = 5, v_plaintext = 4, v_output = [char_of (4::int), CHR 0x0A]\<rparr>)
   \<and> Inr \<lparr>v_k = 4, v_p = 7, v_q = 3, v_d = 5, v_plaintext = 4, v_output = [char_of (4::int), CHR 0x0A]\<rparr>
     = (Inr \<lparr>v_k = 4, v_p = 7, v_q = 3, v_d = 5, v_plaintext = 4, v_output = [char_of (4::int), CHR 0x0A]\<rparr> :: error + vars)"
proof -
  have "recover 21 5 16 = Some (Inr \<lparr>v_k = 4, v_p = 7, v_q = 3, v_d = 5, v_plaintext = 4, v_output = [char_of (4::int), CHR 0x0A]\<rparr>)"
    by code_simp
  then have run: "script_run 21 5 16 (Inr \<lparr>v_k = 4, v_p = 7, v_q = 3, v_d = 5, v_plaintext = 4, v_output = [char_of (4::int), CHR 0x0A]\<rparr>)"
    by (rule recover_script_run)
  from script_run_deterministic [OF run run] run show ?thesis by blast
qed

subsection \<open>Primes and Fermat's little theorem\<close>

lemma is_prime_gt_1: "is_prime p \<Longrightarrow> 1 < p"
  by (simp add: is_prime_def)

lemma is_prime_divisors:
  assumes "is_prime p" "d dvd p" "0 \<le> d"
  shows "d = 1 \<or> d = p"
proof (rule ccontr)
  assume n: "\<not> (d = 1 \<or> d = p)"
  from assms(1) have p: "1 < p" by (rule is_prime_gt_1)
  with assms(2) have "d \<noteq> 0" by auto
  from assms(2) p have "d \<le> p" by (intro zdvd_imp_le) simp_all
  with n \<open>d \<noteq> 0\<close> assms(3) have "d \<in> {2..<p}" by simp
  with assms(1,2) show False by (simp add: is_prime_def)
qed

lemma is_prime_coprime:
  assumes "is_prime p" "\<not> p dvd a"
  shows "coprime p a"
proof (rule coprimeI)
  fix c assume c: "c dvd p" "c dvd a"
  then have "\<bar>c\<bar> dvd p" "0 \<le> \<bar>c\<bar>" by simp_all
  with assms(1) have "\<bar>c\<bar> = 1 \<or> \<bar>c\<bar> = p" by (intro is_prime_divisors)
  moreover have "\<bar>c\<bar> \<noteq> p"
  proof
    assume "\<bar>c\<bar> = p"
    with c(2) have "p dvd a" by (metis abs_dvd_iff)
    with assms(2) show False by simp
  qed
  ultimately show "is_unit c" by simp
qed

lemma is_prime_dvd_mult:
  assumes "is_prime p" "p dvd a * b"
  shows "p dvd a \<or> p dvd b"
proof (cases "p dvd a")
  case True then show ?thesis by simp
next
  case False
  with assms(1) have "coprime p a" by (rule is_prime_coprime)
  with assms(2) have "p dvd b" by (simp add: coprime_dvd_mult_right_iff)
  then show ?thesis by simp
qed

lemma is_prime_dvd_binomial:
  assumes "is_prime (int p)" "0 < k" "k < p"
  shows "p dvd (p choose k)"
proof -
  from assms(2) obtain k' where k': "k = Suc k'" by (cases k) simp_all
  have "Suc k' * (p choose Suc k') = p * ((p - 1) choose k')"
    by (rule binomial_absorption)
  with k' have "p dvd k * (p choose k)" by simp
  then have "int p dvd int k * int (p choose k)" by (metis of_nat_dvd_iff of_nat_mult)
  with assms(1) have "int p dvd int k \<or> int p dvd int (p choose k)" by (rule is_prime_dvd_mult)
  moreover from assms(2,3) have "\<not> p dvd k" by (simp add: nat_dvd_not_less)
  ultimately show ?thesis by (simp add: of_nat_dvd_iff)
qed

lemma fermat_step:
  fixes a :: nat
  assumes "is_prime (int p)"
  shows "(a + 1) ^ p mod p = (a ^ p + 1) mod p"
proof -
  from is_prime_gt_1 [OF assms] have p: "1 < p" by simp
  let ?f = "\<lambda>k. (p choose k) * a ^ k"
  have set: "{..p} = insert 0 (insert p {1..<p})" using p by auto
  have "(a + 1) ^ p = sum ?f {..p}"
    using binomial_ring [of a 1 p] by simp
  also have "\<dots> = sum ?f (insert 0 (insert p {1..<p}))" by (simp only: set)
  also have "\<dots> = ?f 0 + sum ?f (insert p {1..<p})"
    using p by (subst sum.insert) simp_all
  also have "sum ?f (insert p {1..<p}) = ?f p + sum ?f {1..<p}"
    by (subst sum.insert) simp_all
  finally have eq: "(a + 1) ^ p = (a ^ p + 1) + sum ?f {1..<p}" by simp
  have "p dvd sum ?f {1..<p}"
  proof (rule dvd_sum)
    fix k assume "k \<in> {1..<p}"
    then have "p dvd (p choose k)" using is_prime_dvd_binomial [OF assms, of k] by simp
    then show "p dvd (p choose k) * a ^ k" by simp
  qed
  then obtain c where "sum ?f {1..<p} = p * c" by (elim dvdE)
  with eq have "(a + 1) ^ p = (a ^ p + 1) + p * c" by simp
  then show ?thesis by (simp only: mod_mult_self2)
qed

lemma fermat_little:
  fixes a :: nat
  assumes "is_prime (int p)"
  shows "a ^ p mod p = a mod p"
proof (induction a)
  case 0
  from is_prime_gt_1 [OF assms] show ?case by (simp add: power_0_left)
next
  case (Suc a)
  have "Suc a ^ p mod p = (a ^ p + 1) mod p" using fermat_step [OF assms, of a] by simp
  also have "\<dots> = (a ^ p mod p + 1) mod p" by (simp add: mod_simps)
  also have "\<dots> = (a mod p + 1) mod p" by (simp only: Suc.IH)
  also have "\<dots> = Suc a mod p" by (simp add: mod_simps)
  finally show ?case .
qed

lemma fermat_cycle:
  fixes a :: nat
  assumes "is_prime (int p)"
  shows "a ^ (1 + t * (p - 1)) mod p = a mod p"
proof (induction t)
  case 0
  show ?case by simp
next
  case (Suc t)
  from is_prime_gt_1 [OF assms] have p: "0 < p" by simp
  have pow: "a * a ^ (p - 1) = a ^ p" using p by (cases p) simp_all
  have "1 + Suc t * (p - 1) = (1 + t * (p - 1)) + (p - 1)" by simp
  then have "a ^ (1 + Suc t * (p - 1)) = a ^ (1 + t * (p - 1)) * a ^ (p - 1)"
    by (simp only: power_add)
  then have "a ^ (1 + Suc t * (p - 1)) mod p = (a ^ (1 + t * (p - 1)) mod p) * a ^ (p - 1) mod p"
    by (simp only: mod_mult_left_eq)
  also have "\<dots> = (a mod p) * a ^ (p - 1) mod p" by (simp only: Suc.IH)
  also have "\<dots> = a * a ^ (p - 1) mod p" by (simp only: mod_mult_left_eq)
  also have "\<dots> = a ^ p mod p" by (simp only: pow)
  also have "\<dots> = a mod p" by (rule fermat_little [OF assms])
  finally show ?case .
qed

lemma is_prime_distinct_coprime:
  assumes "is_prime p" "is_prime q" "p \<noteq> q"
  shows "coprime p q"
proof (rule is_prime_coprime [OF assms(1)])
  show "\<not> p dvd q"
  proof
    assume "p dvd q"
    moreover from is_prime_gt_1 [OF assms(1)] have "0 \<le> p" "p \<noteq> 1" by simp_all
    ultimately show False using is_prime_divisors [OF assms(2), of p] assms(3) by simp
  qed
qed

lemma rsa_core_nat:
  fixes m :: nat
  assumes "is_prime (int p)" "is_prime (int q)" "p \<noteq> q" "m < p * q"
  shows "m ^ (1 + t * ((p - 1) * (q - 1))) mod (p * q) = m"
proof -
  let ?x = "m ^ (1 + t * ((p - 1) * (q - 1)))"
  have "t * ((p - 1) * (q - 1)) = (t * (q - 1)) * (p - 1)" by (simp add: ac_simps)
  then have "?x mod p = m mod p" using fermat_cycle [OF assms(1), of m "t * (q - 1)"] by (simp only:)
  then have "int ?x mod int p = int m mod int p" by (metis of_nat_mod)
  then have dp: "int p dvd int ?x - int m" by (simp add: mod_eq_dvd_iff)
  have "t * ((p - 1) * (q - 1)) = (t * (p - 1)) * (q - 1)" by (simp add: ac_simps)
  then have "?x mod q = m mod q" using fermat_cycle [OF assms(2), of m "t * (p - 1)"] by (simp only:)
  then have "int ?x mod int q = int m mod int q" by (metis of_nat_mod)
  then have dq: "int q dvd int ?x - int m" by (simp add: mod_eq_dvd_iff)
  from assms(1,2,3) have "coprime (int p) (int q)" by (intro is_prime_distinct_coprime) simp_all
  with dp dq have "int p * int q dvd int ?x - int m" by (intro divides_mult)
  then have "int ?x mod (int p * int q) = int m mod (int p * int q)" by (simp add: mod_eq_dvd_iff)
  then have "int (?x mod (p * q)) = int (m mod (p * q))" by (simp add: of_nat_mod)
  then have "?x mod (p * q) = m mod (p * q)" by (simp only: of_nat_eq_iff)
  with assms(4) show ?thesis by simp
qed

lemma rsa_core_int:
  assumes "is_prime p" "is_prime q" "p \<noteq> q" "0 \<le> m" "m < p * q" "0 \<le> t"
  shows "m ^ nat (1 + t * ((p - 1) * (q - 1))) mod (p * q) = m"
proof -
  from is_prime_gt_1 [OF assms(1)] is_prime_gt_1 [OF assms(2)] have pq: "1 < p" "1 < q" .
  then have ip: "int (nat p) = p" "int (nat q) = q" by simp_all
  have ex: "nat (1 + t * ((p - 1) * (q - 1))) = 1 + nat t * ((nat p - 1) * (nat q - 1))"
    using pq assms(6) by (simp add: nat_add_distrib nat_mult_distrib nat_diff_distrib)
  have lt: "nat m < nat p * nat q"
    using assms(4,5) pq by (simp add: nat_less_iff nat_mult_distrib [symmetric])
  have "nat m ^ (1 + nat t * ((nat p - 1) * (nat q - 1))) mod (nat p * nat q) = nat m"
    using assms(1,2,3) pq lt by (intro rsa_core_nat) (simp_all add: ip)
  then have "int (nat m ^ (1 + nat t * ((nat p - 1) * (nat q - 1))) mod (nat p * nat q)) = int (nat m)"
    by simp
  then have "int (nat m) ^ (1 + nat t * ((nat p - 1) * (nat q - 1))) mod (int (nat p) * int (nat q)) = int (nat m)"
    by (simp only: of_nat_mod of_nat_power of_nat_mult)
  with assms(4) ip ex show ?thesis by simp
qed

subsection \<open>Round trip on a generated key\<close>

lemma find_SomeD: "List.find P xs = Some x \<Longrightarrow> P x \<and> x \<in> set xs"
  by (induction xs) (auto split: if_splits)

lemma inverse_exists:
  assumes "1 < phi" "coprime e phi"
  shows "\<exists>x \<in> set [0..phi - 1]. (e * x) mod phi = 1 mod phi"
proof -
  from assms(2) have "gcd e phi = 1" by simp
  then obtain u v where uv: "u * e + v * phi = 1" using bezout_int [of e phi] by auto
  let ?x = "u mod phi"
  have "(e * ?x) mod phi = (e * u) mod phi" by (simp add: mod_simps)
  also have "e * u = 1 - v * phi" using uv by (simp add: algebra_simps)
  also have "1 - v * phi = 1 + (- v) * phi" by simp
  also have "(1 + (- v) * phi) mod phi = 1 mod phi" by (simp only: mod_mult_self1)
  finally have "(e * ?x) mod phi = 1 mod phi" .
  moreover have "?x \<in> set [0..phi - 1]" using assms(1) by simp
  ultimately show ?thesis by blast
qed

lemma inverse_mod_coprime:
  assumes "1 < phi" "coprime e phi"
  shows "\<exists>d. inverse_mod e (of_int phi) = Inr d \<and> 0 < d \<and> d < phi \<and> (e * d) mod phi = 1"
proof -
  let ?P = "\<lambda>x. (e * x) mod \<bar>phi\<bar> = 1 mod \<bar>phi\<bar>"
  from assms(1) have abs: "\<bar>phi\<bar> = phi" by simp
  from inverse_exists [OF assms] have "List.find ?P [0..\<bar>phi\<bar> - 1] \<noteq> None"
    by (simp only: find_None_iff abs) blast
  then obtain d where d: "List.find ?P [0..\<bar>phi\<bar> - 1] = Some d" by auto
  from find_SomeD [OF d] assms(1) have P: "(e * d) mod phi = 1" and r: "0 \<le> d" "d < phi"
    by (simp_all add: abs)
  have "d \<noteq> 0"
  proof
    assume "d = 0" with P show False by simp
  qed
  with r have "0 < d" by simp
  moreover from d assms(1) have "inverse_mod e (of_int phi) = Inr d"
    by (simp add: inverse_mod_def)
  ultimately show ?thesis using P r by blast
qed

lemma generate_SomeD:
  assumes "generate e p = Some (n, e')" "mod_inverse e p = Some q"
  shows "is_prime p" "is_prime q" "n = p * q" "e' = e"
  using assms by (auto simp: generate_def split: if_splits)

lemma mod_inverse_SomeD:
  assumes "mod_inverse e p = Some q" "1 < p"
  shows "0 \<le> q" "q < p" "(e * q) mod p = 1"
  using find_SomeD [OF assms(1) [unfolded mod_inverse_def]] assms(2) by simp_all

lemma is_prime_odd:
  assumes "is_prime p" "p \<noteq> 2"
  shows "odd p"
proof
  assume "even p"
  with is_prime_divisors [OF assms(1), of 2] assms(2) show False by simp
qed

text \<open>
  The generated key satisfies \<open>q * e = k\<^sub>0 * p + 1\<close> for \<open>k\<^sub>0 = (q * e - 1) div p\<close>, and for an odd
  \<open>q\<close> this \<open>k\<^sub>0\<close> is even and at least 2.
\<close>

lemma weak_key_multiplier:
  assumes p: "is_prime p" and q: "is_prime q" and inv: "mod_inverse e p = Some q"
    and e: "0 < e" and co: "coprime e ((p - 1) * (q - 1))" and oq: "odd q"
  defines "k0 \<equiv> (q * e - 1) div p"
  shows "q * e = k0 * p + 1" "even k0" "2 \<le> k0" "q < p" "odd p"
proof -
  from p q have gt: "1 < p" "1 < q" by (simp_all add: is_prime_gt_1)
  from mod_inverse_SomeD [OF inv gt(1)] have qr: "q < p" and m: "(e * q) mod p = 1" by simp_all
  show "q < p" by fact
  from gt(1) m have "(e * q) mod p = 1 mod p" by simp
  then have "p dvd e * q - 1" by (simp add: mod_eq_dvd_iff)
  then have "p dvd q * e - 1" by (simp add: mult.commute)
  then have "(q * e - 1) div p * p = q * e - 1" by simp
  then show eq: "q * e = k0 * p + 1" by (simp add: k0_def)
  from qr gt(2) have "p \<noteq> 2" by simp
  with p show op: "odd p" by (rule is_prime_odd)
  have "odd e"
  proof
    assume "even e"
    moreover from op have "even ((p - 1) * (q - 1))" by simp
    ultimately have "is_unit (2::int)" using co by (intro coprime_common_divisor [of e "(p - 1) * (q - 1)"])
    then show False by simp
  qed
  with oq have "odd (q * e)" by simp
  with eq have "even (k0 * p)" by simp
  with op show ek: "even k0" by simp
  from mult_left_mono [of 1 e q] e gt(2) have "q \<le> q * e" by simp
  with gt(2) have "1 < q * e" by linarith
  with eq have "0 < k0 * p" by simp
  with gt(1) have "0 < k0" by (simp add: zero_less_mult_iff)
  with ek show "2 \<le> k0" by presburger
qed

lemma search_stops_at:
  assumes "2 \<le> k0" "even k0" "n * e = p * (k0 * p + 1)"
    and "\<forall>k x. even k \<and> 2 \<le> k \<and> k < k0 \<longrightarrow> n * e \<noteq> x * (k * x + 1)"
  shows "\<exists>t. search n e 2 [] = Some ([(p, 1)], k0 + 2, t)"
proof -
  from assms(2) obtain c where c: "k0 = 2 * c" by (elim evenE)
  define j where "j = nat (c - 1)"
  from assms(1) c have k0: "k0 = 2 + 2 * int j" by (simp add: j_def)
  have r: "roots_ZZ n e (2 + 2 * int j) = [(p, 1)]"
    using assms(1,3) unfolding k0 by (rule roots_ZZ_eq_single)
  then have ne: "roots_ZZ n e (2 + 2 * int j) \<noteq> []" by simp
  have least: "\<forall>i<j. roots_ZZ n e (2 + 2 * int i) = []"
  proof (intro allI impI)
    fix i assume "i < j"
    then have "even (2 + 2 * int i) \<and> 2 \<le> 2 + 2 * int i \<and> 2 + 2 * int i < k0" by (simp add: k0)
    with assms(4) have "\<forall>x. n * e \<noteq> x * ((2 + 2 * int i) * x + 1)" by blast
    then show "roots_ZZ n e (2 + 2 * int i) = []" unfolding roots_ZZ_empty_iff .
  qed
  from search_found [OF ne least, of "[]"] r show ?thesis by (simp add: k0)
qed

lemma finish_weak_key:
  assumes p: "is_prime p" and q: "is_prime q" and pq: "q < p" and oq: "odd q"
    and e: "0 < e" and co: "coprime e ((p - 1) * (q - 1))"
    and m: "0 \<le> m" "m < p * q"
  shows "\<exists>v. finish (p * q) e (m ^ nat e mod (p * q)) [(p, 1)] k = Inr v
             \<and> v_plaintext v = m \<and> v_p v = p \<and> v_q v = of_int q"
proof -
  let ?n = "p * q" and ?phi = "(p - 1) * (q - 1)"
  from p q have gt: "1 < p" "1 < q" by (simp_all add: is_prime_gt_1)
  from gt oq have q3: "3 \<le> q" by presburger
  with pq have p3: "3 \<le> p" by simp
  from p3 q3 have "2 * 2 \<le> ?phi" by (intro mult_mono) simp_all
  then have phi: "1 < ?phi" by simp
  from p3 q3 have "3 * 3 \<le> ?n" by (intro mult_mono) simp_all
  then have n: "?n \<noteq> 0" "?n \<noteq> 1" by linarith+
  have div: "rat_div ?n p = Inr (of_int q)" using gt(1) by (simp add: rat_div_def)
  have modulus: "(of_int p - 1) * (of_int q - 1) = (of_int ?phi :: rat)" by simp
  from inverse_mod_coprime [OF phi co] obtain d where
    d: "inverse_mod e (of_int ?phi) = Inr d" "0 < d" "(e * d) mod ?phi = 1" by blast
  define t where "t = (e * d) div ?phi"
  from d(3) have ed: "e * d = 1 + t * ?phi"
    unfolding t_def by (metis mult_div_mod_eq add.commute mult.commute)
  have "0 \<le> t" unfolding t_def using e d(2) phi by (simp add: pos_imp_zdiv_nonneg_iff)
  have "nat e * nat d = nat (e * d)" using e by (simp add: nat_mult_distrib)
  then have "(m ^ nat e mod ?n) ^ nat d mod ?n = m ^ nat (e * d) mod ?n"
    by (simp add: power_mod power_mult [symmetric])
  also have "\<dots> = m ^ nat (1 + t * ?phi) mod ?n" by (simp only: ed)
  also have "\<dots> = m"
    using p q pq m \<open>0 \<le> t\<close> by (intro rsa_core_int) simp_all
  finally have "(m ^ nat e mod ?n) ^ nat d mod ?n = m" .
  with n d(2) have pm: "power_mod (m ^ nat e mod ?n) d ?n = Inr m" by (simp add: power_mod_def)
  show ?thesis
    unfolding finish_def by (simp only: list.case prod.case div sum.case modulus d(1) pm) simp
qed

text \<open>
  C1, as the script behaves: take a key of the generator (\<open>p\<close> prime, \<open>q\<close> the inverse of \<open>e\<close>
  modulo \<open>p\<close> and prime, \<open>n = p * q\<close>, \<open>e > 0\<close> coprime to \<open>(p - 1) * (q - 1)\<close>) with \<open>q\<close> odd,
  such that no even \<open>k\<close> below \<open>k\<^sub>0 = (q * e - 1) div p\<close> gives the quadratic an integer root.
  Then for every \<open>0 \<le> m < n\<close> the script run on \<open>n\<close>, \<open>e\<close> and \<open>m ^ e mod n\<close> ends with
  \<open>p\<close>, \<open>q\<close> and the plaintext \<open>m\<close>.
\<close>

theorem recover_roundtrip:
  assumes gen: "generate e p = Some (n, e)" and inv: "mod_inverse e p = Some q"
    and e: "0 < e" and co: "coprime e ((p - 1) * (q - 1))" and oq: "odd q"
    and first: "list_all (\<lambda>i. roots_ZZ n e (2 * i) = []) [1..(q * e - 1) div p div 2 - 1]"
    and m: "0 \<le> m" "m < n"
  shows "\<exists>v. recover n e (m ^ nat e mod n) = Some (Inr v)
             \<and> v_plaintext v = m \<and> v_p v = p \<and> v_q v = of_int q"
proof -
  define k0 where "k0 = (q * e - 1) div p"
  note key = generate_SomeD [OF gen inv]
  note mult = weak_key_multiplier [OF key(1,2) inv e co oq, folded k0_def]
  have root: "n * e = p * (k0 * p + 1)"
  proof -
    have "n * e = p * (q * e)" by (simp add: key(3))
    then show ?thesis by (simp only: mult(1))
  qed
  have none: "\<forall>k x. even k \<and> 2 \<le> k \<and> k < k0 \<longrightarrow> n * e \<noteq> x * (k * x + 1)"
  proof (intro allI impI)
    fix k x :: int
    assume k: "even k \<and> 2 \<le> k \<and> k < k0"
    then obtain i where i: "k = 2 * i" by (auto elim: evenE)
    with k mult(2) have "1 \<le> i" "i \<le> k0 div 2 - 1" by auto
    with first have "roots_ZZ n e (2 * i) = []" by (simp add: list_all_iff k0_def)
    then show "n * e \<noteq> x * (k * x + 1)" by (simp add: roots_ZZ_empty_iff i)
  qed
  from search_stops_at [OF mult(3,2) root none] obtain t
    where s: "search n e 2 [] = Some ([(p, 1)], k0 + 2, t)" by blast
  from m key(3) have m': "m < p * q" by simp
  from finish_weak_key [OF key(1,2) mult(4) oq e co m(1) m', of "k0 + 2"] obtain v
    where "finish (p * q) e (m ^ nat e mod (p * q)) [(p, 1)] (k0 + 2) = Inr v"
      and "v_plaintext v = m" "v_p v = p" "v_q v = of_int q" by blast
  with s key(3) show ?thesis by (simp add: recover_def)
qed

theorem recover_roundtrip_witness:
  "generate 9 11 = Some (55, 9) \<and> mod_inverse 9 11 = Some 5 \<and> (0::int) < 9
   \<and> coprime (9::int) ((11 - 1) * (5 - 1)) \<and> odd (5::int)
   \<and> list_all (\<lambda>i. roots_ZZ 55 9 (2 * i) = []) [1..(5 * 9 - 1) div 11 div 2 - 1]
   \<and> (0::int) \<le> 2 \<and> (2::int) < 55
   \<and> (\<exists>v. recover 55 9 (2 ^ nat 9 mod 55) = Some (Inr v)
          \<and> v_plaintext v = 2 \<and> v_p v = 11 \<and> v_q v = of_int 5)"
proof -
  have gen: "generate 9 11 = Some (55, 9)" by code_simp
  have inv: "mod_inverse 9 11 = Some 5" by code_simp
  have e: "(0::int) < 9" by simp
  have co: "coprime (9::int) ((11 - 1) * (5 - 1))" by code_simp
  have oq: "odd (5::int)" by simp
  have first: "list_all (\<lambda>i. roots_ZZ 55 9 (2 * i) = []) [1..(5 * 9 - 1) div 11 div 2 - 1]"
    by code_simp
  have m: "(0::int) \<le> 2" "(2::int) < 55" by simp_all
  from recover_roundtrip [OF gen inv e co oq first m] gen inv e co oq first m
  show ?thesis by blast
qed

text \<open>
  C1 as stated fails: \<open>p = 5\<close>, \<open>e = 7\<close> gives the generated key \<open>q = 3\<close>, \<open>n = 15\<close> with \<open>e\<close>
  coprime to \<open>(p - 1) * (q - 1)\<close>. Here \<open>k\<^sub>0 = 4\<close>, but already \<open>k = 2\<close> has the root \<open>7\<close>
  (\<open>7 * 15 = 105\<close>), which does not divide \<open>n\<close>; the run on the encryption of \<open>m = 2\<close> ends
  with \<open>TypeError\<close>.
\<close>

theorem recover_fails_on_generated_key:
  "generate 7 5 = Some (15, 7) \<and> mod_inverse 7 5 = Some 3 \<and> coprime (7::int) ((5 - 1) * (3 - 1))
   \<and> (0::int) \<le> 2 \<and> (2::int) < 15 \<and> recover 15 7 (2 ^ nat 7 mod 15) = Some (Inl TypeError)"
proof -
  have "generate 7 5 = Some (15, 7)" by code_simp
  moreover have "mod_inverse 7 5 = Some 3" by code_simp
  moreover have "coprime (7::int) ((5 - 1) * (3 - 1))" by code_simp
  moreover have "recover 15 7 (2 ^ nat 7 mod 15) = Some (Inl TypeError)" by code_simp
  ultimately show ?thesis by simp
qed

end
